theory Spec2Isabelle
  imports Main
begin

section \<open>The bulk writer of \<open>firestore/bulkwriter.go\<close>\<close>

subsection \<open>Constants\<close>

definition MAX_BATCH_SIZE :: nat where
  "MAX_BATCH_SIZE = 20"

definition MAX_RETRY_ATTEMPTS :: int where
  "MAX_RETRY_ATTEMPTS = 10"

definition DEFAULT_STARTING_MAXIMUM_OPS_PER_SECOND :: int where
  "DEFAULT_STARTING_MAXIMUM_OPS_PER_SECOND = 500"

subsection \<open>Data\<close>

text \<open>
  Write payloads (\<open>*pb.Write\<close>), write results (\<open>*pb.WriteResult\<close>), document references
  and the data handed to \<open>Create\<close> are opaque to the coordinator: each is a number naming
  the value. A channel is named by its address; \<open>make\<close> hands out fresh addresses.
\<close>

type_synonym pb_Write = nat
type_synonym pb_WriteResult = nat
type_synonym DocumentRef = nat
type_synonym datum = nat
type_synonym chan = nat

text \<open>
  The errors of the file, one constructor for each \<open>errors.New\<close> of \<open>Create\<close>, and the
  errors that \<open>vc.BatchWrite\<close> returns (named by a number).
\<close>

datatype error =
    BulkWriterClosed
  | NilDocumentContents
  | CannotCreateDocument datum
  | BatchWriteError nat

record bulkWriterJob =
  err :: chan
  result :: chan
  "write" :: pb_Write
  attempts :: int

text \<open>
  The request carries the database and the writes (its \<open>Labels\<close> are always the empty
  map). The response carries the two slices that \<open>execute\<close> reads; a status is its code
  (\<open>GetCode\<close> of a nil status is 0), and the entries of \<open>WriteResults\<close> are non-nil
  pointers.
\<close>

record BatchWriteRequest =
  Database :: string
  Writes :: "pb_Write list"

record BatchWriteResponse =
  WriteResults :: "pb_WriteResult list"
  Status :: "int list"

text \<open>
  The fields of the struct that the methods read or write (\<open>ctx\<close> and \<open>vc\<close> are handles
  passed on to the transport).
\<close>

record CallersBulkWriter =
  database :: string
  reqs :: int
  isOpen :: bool
  backlogQueue :: "bulkWriterJob list"

text \<open>
  A value sent on a channel. Every channel of the file is made with capacity 1 and is
  received from by the one caller blocked in \<open>Create\<close>, so the model records the sends
  of a run in order instead of the buffers.
\<close>

datatype send =
    ResultSend chan "pb_WriteResult option"
  | ErrSend chan "error option"

text \<open>
  The coordinator together with what its methods act on: the channels made so far
  (\<open>nchan\<close> is the next fresh address), the values sent on channels, and the requests
  handed to \<open>vc.BatchWrite\<close>, both in the order they happened.
\<close>

record world = CallersBulkWriter +
  nchan :: nat
  sends :: "send list"
  calls :: "BatchWriteRequest list"

text \<open>
  \<open>vc.BatchWrite\<close> is outside the file: it is a parameter. It gets the number of
  earlier calls and the request, and returns Go's pair \<open>(resp, err)\<close>, each of which may
  be nil (\<open>None\<close>).
\<close>

type_synonym transport =
  "nat \<Rightarrow> BatchWriteRequest \<Rightarrow> BatchWriteResponse option \<times> error option"

text \<open>
  \<open>doc.newCreateWrites\<close> is outside the file as well: a parameter that returns the writes
  or an error.
\<close>

type_synonym encoder = "DocumentRef \<Rightarrow> datum \<Rightarrow> error + pb_Write list"

text \<open>A call either returns or panics; both carry the world as it is at that moment.\<close>

datatype outcome = Returned world | Panicked world

fun state_of :: "outcome \<Rightarrow> world" where
  "state_of (Returned w) = w"
| "state_of (Panicked w) = w"

subsection \<open>\<open>NewCallersBulkWriter\<close>\<close>

text \<open>The coordinator that \<open>NewCallersBulkWriter\<close> returns when the client is made.\<close>

definition NewCallersBulkWriter :: "string \<Rightarrow> world" where
  "NewCallersBulkWriter db =
     \<lparr>database = db, reqs = 0, isOpen = True, backlogQueue = [],
      nchan = 0, sends = [], calls = []\<rparr>"

subsection \<open>\<open>makeBatch\<close>\<close>

definition makeBatch :: "world \<Rightarrow> bulkWriterJob list \<times> world" where
  "makeBatch bw =
     (let qs = length (backlogQueue bw) in
      if qs < MAX_BATCH_SIZE
      then (take qs (backlogQueue bw), bw\<lparr>backlogQueue := []\<rparr>)
      else (take MAX_BATCH_SIZE (backlogQueue bw),
            bw\<lparr>backlogQueue := drop MAX_BATCH_SIZE (backlogQueue bw)\<rparr>))"

subsection \<open>\<open>execute\<close>\<close>

text \<open>The loop of lines 158 to 161: every job of the batch is sent nil and the error.\<close>

fun fail_all :: "error \<Rightarrow> bulkWriterJob list \<Rightarrow> world \<Rightarrow> world" where
  "fail_all e [] bw = bw"
| "fail_all e (j # js) bw =
     fail_all e js (bw\<lparr>sends := sends bw @ [ResultSend (result j) None, ErrSend (err j) (Some e)]\<rparr>)"

text \<open>
  The loop of lines 168 to 180 from index \<open>i\<close> on, over the rest of
  \<open>resp.WriteResults\<close>. Reading \<open>resp.Status[i]\<close> or \<open>b[i]\<close> out of range panics.
\<close>

fun route :: "bulkWriterJob list \<Rightarrow> int list \<Rightarrow> nat \<Rightarrow> pb_WriteResult list \<Rightarrow> world \<Rightarrow> outcome" where
  "route b st i [] bw = Returned bw"
| "route b st i (res # rest) bw =
     (if length st \<le> i then Panicked bw
      else if st ! i \<noteq> 0
      then (if length b \<le> i then Panicked bw
            else route b st (Suc i) rest (bw\<lparr>backlogQueue := backlogQueue bw @ [b ! i]\<rparr>))
      else (if length b \<le> i then Panicked bw
            else route b st (Suc i) rest
                   (bw\<lparr>sends := sends bw @
                      [ResultSend (result (b ! i)) (Some res), ErrSend (err (b ! i)) None]\<rparr>)))"

definition execute :: "transport \<Rightarrow> bool \<Rightarrow> world \<Rightarrow> outcome" where
  "execute tr isFlushing bw =
     (if reqs bw \<ge> DEFAULT_STARTING_MAXIMUM_OPS_PER_SECOND then Returned bw
      else
        let (b, bw1) = makeBatch bw;
            ws = map write (filter (\<lambda>j. attempts j < MAX_RETRY_ATTEMPTS) b)
        in if length ws = 0 then Returned bw1
           else
             let bwr = \<lparr>Database = database bw1, Writes = ws\<rparr>;
                 bw2 = bw1\<lparr>reqs := reqs bw1 + 1\<rparr>;
                 (resp, e) = tr (length (calls bw2)) bwr;
                 bw3 = bw2\<lparr>calls := calls bw2 @ [bwr]\<rparr>;
                 bw4 = (case e of None \<Rightarrow> bw3 | Some x \<Rightarrow> fail_all x b bw3);
                 bw5 = bw4\<lparr>reqs := reqs bw4 - 1\<rparr>
             in case resp of
                  None \<Rightarrow> Panicked bw5
                | Some r \<Rightarrow> route b (Status r) 0 (WriteResults r) bw5)"

subsection \<open>\<open>Flush\<close> and \<open>Close\<close>\<close>

text \<open>
  The loop of \<open>Flush\<close> may run forever: \<open>None\<close> is the call that never returns. A panic
  of \<open>execute\<close> ends the call. The sleep between two rounds is left out.
\<close>

partial_function (option) Flush_loop :: "transport \<Rightarrow> world \<Rightarrow> outcome option" where
  "Flush_loop tr bw =
     (if length (backlogQueue bw) > 0
      then (case execute tr True bw of
              Panicked w \<Rightarrow> Some (Panicked w)
            | Returned bw' \<Rightarrow> Flush_loop tr bw')
      else Some (Returned bw))"

definition Flush :: "transport \<Rightarrow> world \<Rightarrow> outcome option" where
  "Flush tr bw =
     (case execute tr True bw of
        Panicked w \<Rightarrow> Some (Panicked w)
      | Returned bw' \<Rightarrow> Flush_loop tr bw')"

definition Close :: "transport \<Rightarrow> world \<Rightarrow> outcome option" where
  "Close tr bw = Flush tr (bw\<lparr>isOpen := False\<rparr>)"

subsection \<open>\<open>Create\<close>\<close>

text \<open>
  \<open>Create\<close> up to its last line. It either returns at once with a result and an error,
  or panics at \<open>w[0]\<close>, or has appended the job and started \<open>go bw.execute(false)\<close>; the
  caller then blocks on the job's two channels, and the started \<open>execute\<close> runs when the
  scheduler lets it.
\<close>

datatype create_outcome =
    CreateReturned "pb_WriteResult option" "error option" world
  | CreatePanicked world
  | CreateEnqueued bulkWriterJob world

definition Create :: "encoder \<Rightarrow> DocumentRef option \<Rightarrow> datum \<Rightarrow> world \<Rightarrow> create_outcome" where
  "Create enc doc d bw =
     (if \<not> isOpen bw then CreateReturned None (Some BulkWriterClosed) bw
      else case doc of
        None \<Rightarrow> CreateReturned None (Some NilDocumentContents) bw
      | Some dr \<Rightarrow>
          (case enc dr d of
             Inl x \<Rightarrow> CreateReturned None (Some (CannotCreateDocument d)) bw
           | Inr w \<Rightarrow>
               (case w of
                  [] \<Rightarrow> CreatePanicked bw
                | w0 # ws \<Rightarrow>
                    let r = nchan bw;
                        e = nchan bw + 1;
                        j = \<lparr>err = e, result = r, write = w0, attempts = 0\<rparr>
                    in CreateEnqueued j
                         (bw\<lparr>nchan := nchan bw + 2,
                             backlogQueue := backlogQueue bw @ [j]\<rparr>))))"

subsection \<open>Runs\<close>

text \<open>
  A run is a sequence of calls, each taken as one step: \<open>Create\<close> up to the start of
  its dispatch, a dispatch \<open>execute\<close>, \<open>Flush\<close> and \<open>Close\<close>. A panic ends the run.
\<close>

datatype op = OpCreate "DocumentRef option" datum | OpExecute bool | OpFlush | OpClose

fun apply_op :: "transport \<Rightarrow> encoder \<Rightarrow> op \<Rightarrow> world \<Rightarrow> outcome option" where
  "apply_op tr enc (OpCreate doc d) bw =
     (case Create enc doc d bw of
        CreateReturned r e bw' \<Rightarrow> Some (Returned bw')
      | CreatePanicked bw' \<Rightarrow> Some (Panicked bw')
      | CreateEnqueued j bw' \<Rightarrow> Some (Returned bw'))"
| "apply_op tr enc (OpExecute f) bw = Some (execute tr f bw)"
| "apply_op tr enc OpFlush bw = Flush tr bw"
| "apply_op tr enc OpClose bw = Close tr bw"

fun run :: "transport \<Rightarrow> encoder \<Rightarrow> op list \<Rightarrow> world \<Rightarrow> outcome option" where
  "run tr enc [] bw = Some (Returned bw)"
| "run tr enc (x # xs) bw =
     (case apply_op tr enc x bw of
        None \<Rightarrow> None
      | Some (Panicked w) \<Rightarrow> Some (Panicked w)
      | Some (Returned bw') \<Rightarrow> run tr enc xs bw')"

subsection \<open>What a run shows\<close>

text \<open>
  The channel a send is made on, the sends of a run that are on one of the two channels
  of a job, and the test that these sends resolve the job once: one value on its result
  channel, then one on its error channel, exactly one of the two not nil.
\<close>

fun send_chan :: "send \<Rightarrow> chan" where
  "send_chan (ResultSend c v) = c"
| "send_chan (ErrSend c e) = c"

definition on_sink :: "bulkWriterJob \<Rightarrow> send \<Rightarrow> bool" where
  "on_sink j x \<longleftrightarrow> send_chan x = result j \<or> send_chan x = err j"

definition sink_sends :: "bulkWriterJob \<Rightarrow> world \<Rightarrow> send list" where
  "sink_sends j bw = filter (on_sink j) (sends bw)"

fun is_resolution :: "bulkWriterJob \<Rightarrow> send list \<Rightarrow> bool" where
  "is_resolution j [ResultSend c v, ErrSend c' e] =
     (c = result j \<and> c' = err j \<and> ((v = None) \<noteq> (e = None)))"
| "is_resolution j xs = False"

text \<open>
  What the loop over a response does to a batch \<open>b\<close>, with statuses \<open>st\<close> and results
  \<open>rs\<close>, when no index is out of range: the jobs it appends to the backlog, and the values
  it sends.
\<close>

definition requeued :: "bulkWriterJob list \<Rightarrow> int list \<Rightarrow> pb_WriteResult list \<Rightarrow> bulkWriterJob list" where
  "requeued b st rs = map fst (filter (\<lambda>(j, s, r). s \<noteq> 0) (zip b (zip st rs)))"

definition delivered :: "bulkWriterJob list \<Rightarrow> int list \<Rightarrow> pb_WriteResult list \<Rightarrow> send list" where
  "delivered b st rs =
     concat (map (\<lambda>(j, s, r). if s = 0 then [ResultSend (result j) (Some r), ErrSend (err j) None] else [])
       (zip b (zip st rs)))"

text \<open>The two sends that resolve a job with a result \<open>v\<close> and an error \<open>e\<close>.\<close>

definition res_sends :: "bulkWriterJob \<times> pb_WriteResult option \<times> error option \<Rightarrow> send list" where
  "res_sends x = (case x of (j, v, e) \<Rightarrow> [ResultSend (result j) v, ErrSend (err j) e])"

subsection \<open>The contract of the transport\<close>

text \<open>
  The spec's contract for the batch transport: a call either fails with one error and
  no response, or succeeds with a response that has one result and one status for each
  write of the request.
\<close>

definition transport_contract :: "transport \<Rightarrow> bool" where
  "transport_contract tr \<longleftrightarrow>
     (\<forall>n r. case tr n r of
        (Some resp, None) \<Rightarrow>
          length (WriteResults resp) = length (Writes r) \<and> length (Status resp) = length (Writes r)
      | (None, Some e) \<Rightarrow> True
      | _ \<Rightarrow> False)"


subsection \<open>The invariant of the coordinator\<close>

text \<open>
  A job made by \<open>Create\<close> has the two channels made for it, an even address and the next
  one, and \<open>attempts\<close> 0. In every state a run reaches, no batch is in flight between two
  calls, the jobs of the backlog are such jobs with different channels on which nothing
  has been sent, and every send was on a channel that has been made.
\<close>

definition wf_job :: "nat \<Rightarrow> bulkWriterJob \<Rightarrow> bool" where
  "wf_job n j \<longleftrightarrow> even (result j) \<and> err j = Suc (result j) \<and> result j < n \<and> attempts j = 0"

definition coordinator_inv :: "world \<Rightarrow> bool" where
  "coordinator_inv bw \<longleftrightarrow>
     even (nchan bw) \<and> reqs bw = 0 \<and> distinct (map result (backlogQueue bw)) \<and>
     (\<forall>j\<in>set (backlogQueue bw). wf_job (nchan bw) j \<and> sink_sends j bw = []) \<and>
     (\<forall>x\<in>set (sends bw). send_chan x < nchan bw)"

text \<open>
  A job is tracked when it is either still in the backlog with nothing sent to it, or
  out of the backlog and resolved once.
\<close>

definition tracked :: "bulkWriterJob \<Rightarrow> world \<Rightarrow> bool" where
  "tracked j bw \<longleftrightarrow>
     wf_job (nchan bw) j \<and>
     ((j \<in> set (backlogQueue bw) \<and> sink_sends j bw = []) \<or>
      (j \<notin> set (backlogQueue bw) \<and> is_resolution j (sink_sends j bw)))"

subsection \<open>Batches as the spec counts them\<close>

text \<open>
  The spec's batches of a sequence of writes: consecutive pieces of \<open>n\<close> writes, the last
  one shorter when \<open>n\<close> does not divide the length.
\<close>

function chunks :: "nat \<Rightarrow> 'a list \<Rightarrow> 'a list list" where
  "chunks n xs = (if n = 0 \<or> xs = [] then [] else take n xs # chunks n (drop n xs))"
  by pat_completeness auto
termination
  by (relation "measure (\<lambda>(n, xs). length xs)") auto

declare chunks.simps [simp del]


subsection \<open>Concrete transports and encoders\<close>

text \<open>
  Transports, encoders and states to run the code on. \<open>respond_ok\<close> accepts every write of a request
  (the result of a write is named by the write), \<open>respond_reject\<close> answers every write
  with a status code other than 0, \<open>respond_error\<close> fails the call and returns no
  response, and \<open>one_write\<close> encodes a datum as one write.
\<close>

definition respond_ok :: transport where
  "respond_ok n r =
     (Some \<lparr>WriteResults = Writes r, Status = replicate (length (Writes r)) 0\<rparr>, None)"

definition respond_reject :: transport where
  "respond_reject n r =
     (Some \<lparr>WriteResults = Writes r, Status = replicate (length (Writes r)) 3\<rparr>, None)"

definition respond_error :: transport where
  "respond_error n r = (None, Some (BatchWriteError 14))"

definition one_write :: encoder where
  "one_write dr d = Inr [d]"


definition closed_0 :: world where
  "closed_0 = (NewCallersBulkWriter ''db'')\<lparr>isOpen := False\<rparr>"

definition job_0 :: bulkWriterJob where
  "job_0 = \<lparr>err = 1, result = 0, write = 7, attempts = 0\<rparr>"

definition pending_1 :: world where
  "pending_1 = (NewCallersBulkWriter ''db'')\<lparr>nchan := 2, backlogQueue := [job_0]\<rparr>"

definition done_1 :: world where
  "done_1 = (NewCallersBulkWriter ''db'')
     \<lparr>nchan := 2, sends := [ResultSend 0 (Some 7), ErrSend 1 None],
      calls := [\<lparr>Database = ''db'', Writes = [7]\<rparr>]\<rparr>"

definition failed_1 :: world where
  "failed_1 = (NewCallersBulkWriter ''db'')
     \<lparr>nchan := 2, sends := [ResultSend 0 None, ErrSend 1 (Some (BatchWriteError 14))],
      calls := [\<lparr>Database = ''db'', Writes = [7]\<rparr>]\<rparr>"

definition rejected_11 :: world where
  "rejected_11 = pending_1\<lparr>calls := replicate 11 \<lparr>Database = ''db'', Writes = [7]\<rparr>\<rparr>"

definition job_1 :: bulkWriterJob where
  "job_1 = \<lparr>err = 3, result = 2, write = 8, attempts = 0\<rparr>"

definition pending_2 :: world where
  "pending_2 = (NewCallersBulkWriter ''db'')\<lparr>nchan := 4, backlogQueue := [job_0, job_1]\<rparr>"

text \<open>
  \<open>respond_mixed\<close> accepts the even writes and rejects the odd ones; the result of a
  write is named by the write plus 100.
\<close>

definition respond_mixed :: transport where
  "respond_mixed n r =
     (Some \<lparr>WriteResults = map (\<lambda>w. w + 100) (Writes r),
            Status = map (\<lambda>w. if even w then 0 else 3) (Writes r)\<rparr>, None)"

definition routed_2 :: world where
  "routed_2 = (NewCallersBulkWriter ''db'')
     \<lparr>nchan := 4, backlogQueue := [job_0],
      sends := [ResultSend 2 (Some 108), ErrSend 3 None],
      calls := [\<lparr>Database = ''db'', Writes = [7, 8]\<rparr>]\<rparr>"




text \<open>
  \<open>respond_reject_then_ok\<close> rejects every write in its first ten calls and accepts
  every write afterwards.
\<close>

definition respond_reject_then_ok :: transport where
  "respond_reject_then_ok n r = (if n < 10 then respond_reject n r else respond_ok n r)"

definition rejected_10 :: world where
  "rejected_10 = pending_1\<lparr>calls := replicate 10 \<lparr>Database = ''db'', Writes = [7]\<rparr>\<rparr>"

definition resent_11 :: world where
  "resent_11 = (NewCallersBulkWriter ''db'')
     \<lparr>nchan := 2, sends := [ResultSend 0 (Some 7), ErrSend 1 None],
      calls := replicate 10 \<lparr>Database = ''db'', Writes = [7]\<rparr> @ [\<lparr>Database = ''db'', Writes = [7]\<rparr>]\<rparr>"

section \<open>Theorems\<close>

subsection \<open>What the calls leave unchanged\<close>

lemma fail_all_frame [simp]:
  "isOpen (fail_all e b bw) = isOpen bw"
  "reqs (fail_all e b bw) = reqs bw"
  "backlogQueue (fail_all e b bw) = backlogQueue bw"
  "calls (fail_all e b bw) = calls bw"
  "nchan (fail_all e b bw) = nchan bw"
  "database (fail_all e b bw) = database bw"
  by (induction e b bw rule: fail_all.induct) simp_all

lemma route_frame [simp]:
  "isOpen (state_of (route b st i rs bw)) = isOpen bw"
  "reqs (state_of (route b st i rs bw)) = reqs bw"
  "calls (state_of (route b st i rs bw)) = calls bw"
  "nchan (state_of (route b st i rs bw)) = nchan bw"
  "database (state_of (route b st i rs bw)) = database bw"
  by (induction b st i rs bw rule: route.induct) simp_all

lemma makeBatch_frame [simp]:
  "isOpen (snd (makeBatch bw)) = isOpen bw"
  "reqs (snd (makeBatch bw)) = reqs bw"
  "calls (snd (makeBatch bw)) = calls bw"
  "nchan (snd (makeBatch bw)) = nchan bw"
  "sends (snd (makeBatch bw)) = sends bw"
  "database (snd (makeBatch bw)) = database bw"
  by (simp_all add: makeBatch_def Let_def)

lemma makeBatch_eq:
  "makeBatch bw = (take MAX_BATCH_SIZE (backlogQueue bw), bw\<lparr>backlogQueue := drop MAX_BATCH_SIZE (backlogQueue bw)\<rparr>)"
  by (simp add: makeBatch_def Let_def)

lemma execute_frame [simp]:
  "isOpen (state_of (execute tr f bw)) = isOpen bw"
  "reqs (state_of (execute tr f bw)) = reqs bw"
  "nchan (state_of (execute tr f bw)) = nchan bw"
  "database (state_of (execute tr f bw)) = database bw"
  by (simp_all add: execute_def makeBatch_eq Let_def split: prod.splits option.splits)


lemma Flush_loop_empty: "backlogQueue bw = [] \<Longrightarrow> Flush_loop tr bw = Some (Returned bw)"
  by (subst Flush_loop.simps) simp

lemma Flush_loop_panic:
  "backlogQueue bw \<noteq> [] \<Longrightarrow> execute tr True bw = Panicked w \<Longrightarrow> Flush_loop tr bw = Some (Panicked w)"
  by (subst Flush_loop.simps) simp

lemma Flush_loop_step:
  "backlogQueue bw \<noteq> [] \<Longrightarrow> execute tr True bw = Returned bw' \<Longrightarrow> Flush_loop tr bw = Flush_loop tr bw'"
  by (subst Flush_loop.simps) simp

lemma Flush_loop_induct [consumes 1, case_names empty panic step]:
  assumes ret: "Flush_loop tr bw = Some out"
    and emp: "\<And>tr bw. backlogQueue bw = [] \<Longrightarrow> P tr bw (Returned bw)"
    and panic: "\<And>tr bw w. backlogQueue bw \<noteq> [] \<Longrightarrow> execute tr True bw = Panicked w \<Longrightarrow>
                  P tr bw (Panicked w)"
    and step: "\<And>tr bw bw' out. backlogQueue bw \<noteq> [] \<Longrightarrow> execute tr True bw = Returned bw' \<Longrightarrow>
                  Flush_loop tr bw' = Some out \<Longrightarrow> P tr bw' out \<Longrightarrow> P tr bw out"
  shows "P tr bw out"
proof -
  have "Flush_loop tr bw = Some out \<and> P tr bw out"
  proof (rule Flush_loop.raw_induct
      [where P = "\<lambda>tr bw out. Flush_loop tr bw = Some out \<and> P tr bw out", OF _ ret])
    fix loop :: "transport \<Rightarrow> world \<Rightarrow> outcome option" and tr bw y
    assume ih: "\<And>tr bw y. loop tr bw = Some y \<Longrightarrow> Flush_loop tr bw = Some y \<and> P tr bw y"
      and body: "(if 0 < length (backlogQueue bw)
           then case execute tr True bw of Returned bw' \<Rightarrow> loop tr bw'
                | Panicked w \<Rightarrow> Some (Panicked w)
           else Some (Returned bw)) = Some y"
    show "Flush_loop tr bw = Some y \<and> P tr bw y"
    proof (cases "backlogQueue bw = []")
      case True
      with body have "y = Returned bw" by simp
      with True show ?thesis by (simp add: Flush_loop_empty emp)
    next
      case False
      show ?thesis
      proof (cases "execute tr True bw")
        case (Returned bw')
        with False body have "loop tr bw' = Some y" by simp
        from ih[OF this] False Returned show ?thesis
          by (auto simp: Flush_loop_step intro: step)
      next
        case (Panicked w)
        with False body have "y = Panicked w" by simp
        with False Panicked show ?thesis by (simp add: Flush_loop_panic panic)
      qed
    qed
  qed
  then show ?thesis by simp
qed

lemma Flush_loop_frame:
  "Flush_loop tr bw = Some out \<Longrightarrow>
     isOpen (state_of out) = isOpen bw \<and> reqs (state_of out) = reqs bw \<and>
     nchan (state_of out) = nchan bw \<and> database (state_of out) = database bw"
proof (induction rule: Flush_loop_induct)
  case (empty tr bw)
  show ?case by simp
next
  case (panic tr bw w)
  with execute_frame[of tr True bw] show ?case by simp
next
  case (step tr bw bw' out)
  with execute_frame[of tr True bw] show ?case by simp
qed

lemma Flush_frame:
  assumes "Flush tr bw = Some out"
  shows "isOpen (state_of out) = isOpen bw \<and> reqs (state_of out) = reqs bw \<and>
     nchan (state_of out) = nchan bw \<and> database (state_of out) = database bw"
proof (cases "execute tr True bw")
  case (Returned w)
  then have "Flush_loop tr w = Some out" using assms by (simp add: Flush_def)
  from Flush_loop_frame[OF this] execute_frame[of tr True bw] Returned
  show ?thesis by simp
next
  case (Panicked w)
  then have "out = Panicked w" using assms by (simp add: Flush_def)
  with execute_frame[of tr True bw] Panicked show ?thesis by simp
qed




lemma Create_frame:
  "Create enc doc d bw = CreateReturned r e bw' \<Longrightarrow> bw' = bw"
  "Create enc doc d bw = CreatePanicked bw' \<Longrightarrow> bw' = bw"
  "Create enc doc d bw = CreateEnqueued j bw' \<Longrightarrow> isOpen bw' = isOpen bw"
  by (auto simp: Create_def Let_def split: if_splits option.splits sum.splits list.splits)

lemma apply_op_isOpen:
  assumes "apply_op tr enc x bw = Some out" and "\<not> isOpen bw"
  shows "\<not> isOpen (state_of out)"
proof (cases x)
  case (OpCreate doc d)
  with assms have "out = Returned bw" by (simp add: Create_def)
  with assms(2) show ?thesis by simp
next
  case (OpExecute f)
  with assms execute_frame(1)[of tr f bw] show ?thesis by auto
next
  case OpFlush
  with assms show ?thesis by (auto dest: Flush_frame)
next
  case OpClose
  with assms show ?thesis by (auto simp: Close_def dest: Flush_frame)
qed

lemma run_isOpen:
  "run tr enc xs bw = Some out \<Longrightarrow> \<not> isOpen bw \<Longrightarrow> \<not> isOpen (state_of out)"
proof (induction xs arbitrary: bw)
  case Nil
  then show ?case by auto
next
  case (Cons x xs)
  show ?case
  proof (cases "apply_op tr enc x bw")
    case None
    with Cons.prems show ?thesis by simp
  next
    case (Some o1)
    show ?thesis
    proof (cases o1)
      case (Returned w)
      with Some Cons.prems have "run tr enc xs w = Some out" by simp
      moreover have "\<not> isOpen w" using apply_op_isOpen[OF Some] Cons.prems(2) Returned by simp
      ultimately show ?thesis by (rule Cons.IH)
    next
      case (Panicked w)
      with Some Cons.prems have "out = Panicked w" by simp
      with apply_op_isOpen[OF Some] Cons.prems(2) Panicked show ?thesis by simp
    qed
  qed
qed

subsection \<open>\<open>Create\<close> on a closed coordinator or without a document\<close>

text \<open>
  C10. A \<open>Create\<close> with a nil document reference on an open coordinator returns a nil
  result and a non-nil error at once, and leaves the whole state as it was: no job is
  appended, no channel is made, nothing is sent and no dispatch is started.
\<close>

theorem Create_nil_doc:
  "isOpen bw \<Longrightarrow> Create enc None d bw = CreateReturned None (Some NilDocumentContents) bw"
  by (simp add: Create_def)

theorem Create_nil_doc_witness:
  "isOpen (NewCallersBulkWriter ''db'') \<and>
   Create one_write None 7 (NewCallersBulkWriter ''db'') =
     CreateReturned None (Some NilDocumentContents) (NewCallersBulkWriter ''db'')"
  using Create_nil_doc [of "NewCallersBulkWriter ''db''" one_write 7]
  by (simp add: NewCallersBulkWriter_def)

text \<open>
  C9. After \<open>Close\<close> has returned, and whatever calls have been made since, a \<open>Create\<close>
  returns at once with a nil result and the closed-coordinator error, and leaves the
  whole state as it was: no job is appended and no dispatch is started.
\<close>

theorem Create_after_Close:
  assumes "Close tr bw = Some (Returned bw1)"
    and "run tr enc xs bw1 = Some (Returned bw2)"
  shows "Create enc doc d bw2 = CreateReturned None (Some BulkWriterClosed) bw2"
proof -
  have "\<not> isOpen bw1" using Flush_frame[OF assms(1)[unfolded Close_def]] by simp
  with run_isOpen[OF assms(2)] have "\<not> isOpen bw2" by simp
  then show ?thesis by (simp add: Create_def)
qed

lemmas eval_defs =
  NewCallersBulkWriter_def Close_def Flush_def execute_def makeBatch_def Create_def
  DEFAULT_STARTING_MAXIMUM_OPS_PER_SECOND_def MAX_BATCH_SIZE_def MAX_RETRY_ATTEMPTS_def
  respond_ok_def respond_reject_def respond_error_def one_write_def
  Flush_loop_empty

theorem Create_after_Close_witness:
  "Close respond_ok (NewCallersBulkWriter ''db'') = Some (Returned closed_0) \<and>
   run respond_ok one_write [OpCreate (Some 1) 7, OpFlush] closed_0 = Some (Returned closed_0) \<and>
   Create one_write (Some 1) 7 closed_0 = CreateReturned None (Some BulkWriterClosed) closed_0"
proof -
  have c: "Close respond_ok (NewCallersBulkWriter ''db'') = Some (Returned closed_0)"
    by (simp add: closed_0_def eval_defs)
  have r: "run respond_ok one_write [OpCreate (Some 1) 7, OpFlush] closed_0 = Some (Returned closed_0)"
    by (simp add: closed_0_def eval_defs)
  from Create_after_Close [OF c r, of "Some 1" 7] c r show ?thesis by simp
qed

subsection \<open>What holds when \<open>Flush\<close> returns\<close>




subsection \<open>A failed transport call\<close>

lemma fail_all_sends:
  "sends (fail_all e b bw) =
     sends bw @ concat (map (\<lambda>j. [ResultSend (result j) None, ErrSend (err j) (Some e)]) b)"
  by (induction e b bw rule: fail_all.induct) simp_all

lemma fail_all_eq:
  "fail_all e b bw =
     bw\<lparr>sends := sends bw @ concat (map (\<lambda>j. [ResultSend (result j) None, ErrSend (err j) (Some e)]) b)\<rparr>"
  by (induction e b bw rule: fail_all.induct) simp_all

text \<open>
  C5. When \<open>execute\<close> dispatches a batch and the transport call returns an error and no
  response, every job of the batch is sent a nil result and that same error, and the
  backlog is what \<open>makeBatch\<close> left: no job of the batch is appended again. (The call
  then ends in the panic of C6.)
\<close>

theorem transport_error_fails_batch:
  assumes "reqs bw < DEFAULT_STARTING_MAXIMUM_OPS_PER_SECOND"
    and "makeBatch bw = (b, bw1)"
    and "ws = map write (filter (\<lambda>j. attempts j < MAX_RETRY_ATTEMPTS) b)"
    and "ws \<noteq> []"
    and "tr (length (calls bw)) \<lparr>Database = database bw, Writes = ws\<rparr> = (None, Some e)"
  shows "execute tr f bw =
     Panicked (bw\<lparr>backlogQueue := backlogQueue bw1,
                  calls := calls bw @ [\<lparr>Database = database bw, Writes = ws\<rparr>],
                  sends := sends bw @
                    concat (map (\<lambda>j. [ResultSend (result j) None, ErrSend (err j) (Some e)]) b)\<rparr>)"
proof -
  from assms(2) have b: "b = take MAX_BATCH_SIZE (backlogQueue bw)"
    and bw1: "bw1 = bw\<lparr>backlogQueue := drop MAX_BATCH_SIZE (backlogQueue bw)\<rparr>"
    by (simp_all add: makeBatch_eq)
  show ?thesis
    using assms(1,3,4,5)
    by (simp add: execute_def makeBatch_eq b bw1 fail_all_eq)
qed

theorem transport_error_fails_batch_witness:
  "reqs pending_2 < DEFAULT_STARTING_MAXIMUM_OPS_PER_SECOND \<and>
   makeBatch pending_2 = ([job_0, job_1], pending_2\<lparr>backlogQueue := []\<rparr>) \<and>
   [7, 8] = map write (filter (\<lambda>j. attempts j < MAX_RETRY_ATTEMPTS) [job_0, job_1]) \<and>
   [7, 8] \<noteq> ([] :: pb_Write list) \<and>
   respond_error (length (calls pending_2)) \<lparr>Database = database pending_2, Writes = [7, 8]\<rparr> =
     (None, Some (BatchWriteError 14)) \<and>
   execute respond_error False pending_2 =
     Panicked (pending_2\<lparr>backlogQueue := [],
       calls := [\<lparr>Database = ''db'', Writes = [7, 8]\<rparr>],
       sends := [ResultSend 0 None, ErrSend 1 (Some (BatchWriteError 14)),
                 ResultSend 2 None, ErrSend 3 (Some (BatchWriteError 14))]\<rparr>)"
proof -
  have 1: "reqs pending_2 < DEFAULT_STARTING_MAXIMUM_OPS_PER_SECOND"
    by (simp add: pending_2_def eval_defs)
  have 2: "makeBatch pending_2 = ([job_0, job_1], pending_2\<lparr>backlogQueue := []\<rparr>)"
    by (simp add: pending_2_def eval_defs)
  have 3: "[7, 8] = map write (filter (\<lambda>j. attempts j < MAX_RETRY_ATTEMPTS) [job_0, job_1])"
    by (simp add: job_0_def job_1_def eval_defs)
  have 4: "[7, 8] \<noteq> ([] :: pb_Write list)" by simp
  have 5: "respond_error (length (calls pending_2)) \<lparr>Database = database pending_2, Writes = [7, 8]\<rparr> =
     (None, Some (BatchWriteError 14))" by (simp add: respond_error_def)
  from transport_error_fails_batch [where tr = respond_error and f = False, OF 1 2 3 4 5]
    1 2 3 4 5 show ?thesis
    by (simp add: pending_2_def job_0_def job_1_def NewCallersBulkWriter_def)
qed

text \<open>
  C6, the code at a failing input. One job is pending and the transport call fails:
  \<open>execute\<close> sends the error to the job and does not return; it goes on to
  \<open>resp.WriteResults\<close> of the nil response and panics.
\<close>

theorem execute_transport_error_panics:
  "execute respond_error False pending_1 = Panicked failed_1"
  by (simp add: pending_1_def failed_1_def job_0_def eval_defs)

subsection \<open>Jobs that were rejected\<close>

lemma Create_new: "Create one_write (Some 3) 7 (NewCallersBulkWriter ''db'') = CreateEnqueued job_0 pending_1"
  by (simp add: pending_1_def job_0_def eval_defs Let_def)

lemma execute_reject_pending:
  "execute respond_reject f (pending_1\<lparr>calls := cs\<rparr>) =
     Returned (pending_1\<lparr>calls := cs @ [\<lparr>Database = ''db'', Writes = [7]\<rparr>]\<rparr>)"
  by (simp add: pending_1_def job_0_def eval_defs)

lemma run_reject_pending:
  "run respond_reject enc (replicate n (OpExecute f)) (pending_1\<lparr>calls := cs\<rparr>) =
     Some (Returned (pending_1\<lparr>calls := cs @ replicate n \<lparr>Database = ''db'', Writes = [7]\<rparr>\<rparr>))"
proof (induction n arbitrary: cs)
  case 0
  show ?case by simp
next
  case (Suc n)
  show ?case by (simp add: execute_reject_pending Suc.IH replicate_app_Cons_same)
qed

text \<open>
  C2, the code at a failing input. One write is enqueued and the transport rejects it
  every time. After eleven dispatches the job is still in the backlog, its \<open>attempts\<close>
  is still 0, nothing has been sent on its channels, and it has been put in eleven
  requests.
\<close>

theorem rejected_job_retried_without_bound:
  "run respond_reject one_write (OpCreate (Some 3) 7 # replicate 11 (OpExecute False))
     (NewCallersBulkWriter ''db'') = Some (Returned rejected_11) \<and>
   backlogQueue rejected_11 = [job_0] \<and> attempts job_0 = 0 \<and> sends rejected_11 = [] \<and>
   map Writes (calls rejected_11) = replicate 11 [7]"
proof -
  have "pending_1\<lparr>calls := []\<rparr> = pending_1" by (simp add: pending_1_def NewCallersBulkWriter_def)
  with run_reject_pending[of one_write 11 False "[]"]
  have "run respond_reject one_write (replicate 11 (OpExecute False)) pending_1 = Some (Returned rejected_11)"
    by (simp add: rejected_11_def)
  then show ?thesis
    by (simp add: Create_new) (simp add: rejected_11_def pending_1_def job_0_def NewCallersBulkWriter_def)
qed

subsection \<open>The invariant holds along every run\<close>

lemma route_eq:
  "i + length rs \<le> length st \<Longrightarrow> i + length rs \<le> length b \<Longrightarrow>
   route b st i rs bw =
     Returned (bw\<lparr>backlogQueue := backlogQueue bw @ requeued (drop i b) (drop i st) rs,
                  sends := sends bw @ delivered (drop i b) (drop i st) rs\<rparr>)"
proof (induction rs arbitrary: i bw)
  case Nil
  show ?case by (simp add: requeued_def delivered_def)
next
  case (Cons r rs)
  from Cons.prems have i: "i < length st" "i < length b" by simp_all
  have db: "drop i b = b ! i # drop (Suc i) b" and ds: "drop i st = st ! i # drop (Suc i) st"
    using i by (simp_all add: Cons_nth_drop_Suc)
  have ih: "route b st (Suc i) rs w =
     Returned (w\<lparr>backlogQueue := backlogQueue w @ requeued (drop (Suc i) b) (drop (Suc i) st) rs,
                  sends := sends w @ delivered (drop (Suc i) b) (drop (Suc i) st) rs\<rparr>)" for w
    using Cons.prems by (intro Cons.IH) simp_all
  show ?case using i by (simp add: ih db ds requeued_def delivered_def)
qed

lemma execute_ok:
  assumes "reqs bw < DEFAULT_STARTING_MAXIMUM_OPS_PER_SECOND"
    and "\<forall>j\<in>set (backlogQueue bw). attempts j < MAX_RETRY_ATTEMPTS"
    and "backlogQueue bw \<noteq> []"
    and "b = take MAX_BATCH_SIZE (backlogQueue bw)"
    and "req = \<lparr>Database = database bw, Writes = map write b\<rparr>"
    and "tr (length (calls bw)) req = (Some resp, None)"
    and "length (WriteResults resp) \<le> length (Status resp)"
    and "length (WriteResults resp) \<le> length b"
  shows "execute tr f bw =
     Returned (bw\<lparr>backlogQueue := drop MAX_BATCH_SIZE (backlogQueue bw) @
                     requeued b (Status resp) (WriteResults resp),
                  calls := calls bw @ [req],
                  sends := sends bw @ delivered b (Status resp) (WriteResults resp)\<rparr>)"
proof -
  have fb: "filter (\<lambda>j. attempts j < MAX_RETRY_ATTEMPTS) b = b"
    using assms(2,4) by (auto simp: filter_id_conv dest: in_set_takeD)
  have ne: "b \<noteq> []" using assms(3,4) by (simp add: MAX_BATCH_SIZE_def)
  show ?thesis
    using assms(1,5,6,7,8) ne
    by (simp add: execute_def makeBatch_eq assms(4)[symmetric] fb route_eq)
qed

lemma is_resolution_iff:
  "is_resolution j xs \<longleftrightarrow>
     (\<exists>v e. xs = [ResultSend (result j) v, ErrSend (err j) e] \<and> ((v = None) \<noteq> (e = None)))"
  by (induction j xs rule: is_resolution.induct) auto

lemma wf_chans:
  assumes "wf_job n j" "wf_job m k" "result j \<noteq> result k"
  shows "result k \<noteq> err j" "err k \<noteq> result j" "err k \<noteq> err j"
proof -
  have "even (result j)" "odd (err j)" "even (result k)" "odd (err k)"
    using assms(1,2) by (simp_all add: wf_job_def)
  then show "result k \<noteq> err j" "err k \<noteq> result j" by metis+
  show "err k \<noteq> err j" using assms by (simp add: wf_job_def)
qed

lemma wf_disjoint:
  assumes "wf_job n j" "wf_job m k" "result j \<noteq> result k"
  shows "filter (on_sink j) (res_sends (k, v, e)) = []"
  using wf_chans[OF assms] assms(3) by (auto simp: on_sink_def res_sends_def)

lemma wf_same:
  assumes "wf_job n j"
  shows "filter (on_sink j) (res_sends (j, v, e)) = res_sends (j, v, e)"
  using assms by (auto simp: wf_job_def on_sink_def res_sends_def)

lemma filter_other:
  assumes "wf_job n j" "\<forall>x\<in>set rs. wf_job n (fst x) \<and> result (fst x) \<noteq> result j"
  shows "filter (on_sink j) (concat (map res_sends rs)) = []"
  using assms(2)
proof (induction rs)
  case Nil show ?case by simp
next
  case (Cons x xs)
  obtain k v e where x: "x = (k, v, e)" by (cases x)
  with Cons.prems have "wf_job n k" "result j \<noteq> result k" by auto
  from wf_disjoint[OF assms(1) this] Cons show ?case by (simp add: x)
qed

lemma filter_own:
  assumes "wf_job n j" "\<forall>x\<in>set rs. wf_job n (fst x)" "distinct (map (result \<circ> fst) rs)"
    "(j, v, e) \<in> set rs"
  shows "filter (on_sink j) (concat (map res_sends rs)) = res_sends (j, v, e)"
  using assms(2,3,4)
proof (induction rs)
  case Nil then show ?case by simp
next
  case (Cons x xs)
  show ?case
  proof (cases "x = (j, v, e)")
    case True
    have "\<forall>y\<in>set xs. wf_job n (fst y) \<and> result (fst y) \<noteq> result j"
      using Cons.prems True by (auto simp: image_iff)
    from filter_other[OF assms(1) this] True wf_same[OF assms(1)] show ?thesis by simp
  next
    case False
    with Cons.prems have mem: "(j, v, e) \<in> set xs" by simp
    obtain k v' e' where x: "x = (k, v', e')" by (cases x)
    have "result k \<noteq> result j" using Cons.prems(2) mem x by (force simp: image_iff)
    with Cons.prems x have "wf_job n k" "result j \<noteq> result k" by auto
    from wf_disjoint[OF assms(1) this] Cons.IH Cons.prems mem show ?thesis by (simp add: x)
  qed
qed

lemma wf_job_err_less:
  assumes "wf_job n j" "even n"
  shows "err j < n"
proof -
  have "even (result j)" "result j < n" "err j = Suc (result j)" using assms(1) by (simp_all add: wf_job_def)
  with assms(2) have "Suc (result j) \<noteq> n" by auto
  with \<open>result j < n\<close> \<open>err j = Suc (result j)\<close> show ?thesis by simp
qed

lemma is_resolution_res_sends:
  "is_resolution j (res_sends (j, v, e)) \<longleftrightarrow> (v = None) \<noteq> (e = None)"
  by (simp add: res_sends_def)

lemma resolve_step:
  assumes I: "coordinator_inv bw"
    and n: "nchan bw' = nchan bw" and r: "reqs bw' = 0"
    and s: "sends bw' = sends bw @ concat (map res_sends rs)"
    and sub: "set (backlogQueue bw') \<union> fst ` set rs = set (backlogQueue bw)"
    and disj: "set (backlogQueue bw') \<inter> fst ` set rs = {}"
    and dq: "distinct (map result (backlogQueue bw'))"
    and dr: "distinct (map fst rs)"
    and one: "\<forall>x\<in>set rs. (fst (snd x) = None) \<noteq> (snd (snd x) = None)"
  shows "coordinator_inv bw' \<and> (tracked j bw \<longrightarrow> tracked j bw')"
proof -
  let ?q = "backlogQueue bw" and ?q' = "backlogQueue bw'" and ?n = "nchan bw"
  have ev: "even ?n" and dist: "distinct (map result ?q)"
    and wf: "\<And>k. k \<in> set ?q \<Longrightarrow> wf_job ?n k"
    and quiet: "\<And>k. k \<in> set ?q \<Longrightarrow> filter (on_sink k) (sends bw) = []"
    and lt: "\<And>x. x \<in> set (sends bw) \<Longrightarrow> send_chan x < ?n"
    using I by (auto simp: coordinator_inv_def sink_sends_def)
  have inj: "inj_on result (set ?q)" using dist by (simp add: distinct_map)
  have rs_q: "\<And>x. x \<in> set rs \<Longrightarrow> fst x \<in> set ?q" using sub by auto
  have q'_q: "\<And>k. k \<in> set ?q' \<Longrightarrow> k \<in> set ?q" using sub by auto
  have rs_wf: "\<forall>x\<in>set rs. wf_job ?n (fst x)" using rs_q wf by blast
  have ss: "filter (on_sink k) (sends bw') =
      filter (on_sink k) (sends bw) @ filter (on_sink k) (concat (map res_sends rs))" for k
    by (simp add: s)
  have stay: "filter (on_sink k) (sends bw') = []" if k: "k \<in> set ?q'" for k
  proof -
    have kq: "k \<in> set ?q" using k q'_q by blast
    have "\<forall>x\<in>set rs. wf_job ?n (fst x) \<and> result (fst x) \<noteq> result k"
    proof
      fix x assume x: "x \<in> set rs"
      have "fst x \<noteq> k" using disj k x by auto
      with inj rs_q[OF x] kq have "result (fst x) \<noteq> result k" by (auto dest: inj_onD)
      with rs_wf x show "wf_job ?n (fst x) \<and> result (fst x) \<noteq> result k" by blast
    qed
    from filter_other[OF wf[OF kq] this] quiet[OF kq] show ?thesis by (simp add: ss)
  qed
  have drr: "distinct (map (result \<circ> fst) rs)"
  proof -
    have "inj_on result (set (map fst rs))" using inj rs_q by (auto intro: inj_on_subset)
    with dr have "distinct (map result (map fst rs))" by (subst distinct_map) blast
    then show ?thesis by (simp only: map_map)
  qed
  have new_lt: "send_chan x < ?n" if "x \<in> set (concat (map res_sends rs))" for x
  proof -
    from that obtain y where y: "y \<in> set rs" "x \<in> set (res_sends y)" by auto
    obtain k v e where yk: "y = (k, v, e)" by (cases y)
    have w: "wf_job ?n k" using rs_wf y(1) yk by auto
    then have "result k < ?n" by (simp add: wf_job_def)
    moreover have "err k < ?n" using wf_job_err_less[OF w ev] .
    ultimately show ?thesis using y(2) yk by (auto simp: res_sends_def)
  qed
  have all_lt: "\<forall>x\<in>set (sends bw'). send_chan x < nchan bw'"
  proof
    fix x assume "x \<in> set (sends bw')"
    then have "x \<in> set (sends bw) \<or> x \<in> set (concat (map res_sends rs))"
      by (simp only: s set_append Un_iff)
    then show "send_chan x < nchan bw'" using lt new_lt n by metis
  qed
  have queued: "\<forall>k\<in>set ?q'. wf_job (nchan bw') k \<and> sink_sends k bw' = []"
    using stay q'_q wf n by (simp add: sink_sends_def)
  have coordinator_inv': "coordinator_inv bw'"
    unfolding coordinator_inv_def using ev r dq n queued all_lt by simp
  have tr': "tracked j bw'" if t: "tracked j bw"
  proof -
    have wj: "wf_job ?n j" using t by (simp add: tracked_def)
    from t consider
      (pending) "j \<in> set ?q" "filter (on_sink j) (sends bw) = []"
      | (resolved) "j \<notin> set ?q" "is_resolution j (filter (on_sink j) (sends bw))"
      by (auto simp: tracked_def sink_sends_def)
    then show ?thesis
    proof cases
      case pending
      show ?thesis
      proof (cases "j \<in> set ?q'")
        case True
        with stay[OF True] wj show ?thesis by (simp add: tracked_def sink_sends_def n)
      next
        case False
        with pending(1) sub obtain x where x: "x \<in> set rs" "fst x = j" by auto
        obtain v e where xv: "x = (j, v, e)" using x(2) by (cases x) auto
        have "filter (on_sink j) (concat (map res_sends rs)) = res_sends (j, v, e)"
          using filter_own[OF wj rs_wf drr] x(1) xv by simp
        moreover have "(v = None) \<noteq> (e = None)" using one x(1) xv by auto
        ultimately show ?thesis
          using False wj pending(2)
          by (simp add: tracked_def sink_sends_def n ss is_resolution_res_sends)
      qed
    next
      case resolved
      from resolved(2) obtain v e where
        f: "filter (on_sink j) (sends bw) = [ResultSend (result j) v, ErrSend (err j) e]"
        by (auto simp: is_resolution_iff)
      then have "ResultSend (result j) v \<in> set (filter (on_sink j) (sends bw))" by simp
      then have mem: "ResultSend (result j) v \<in> set (sends bw)" by simp
      have "\<forall>x\<in>set rs. wf_job ?n (fst x) \<and> result (fst x) \<noteq> result j"
      proof
        fix x assume x: "x \<in> set rs"
        have "result (fst x) \<noteq> result j"
        proof
          assume eq: "result (fst x) = result j"
          then have "on_sink (fst x) (ResultSend (result j) v)" by (simp add: on_sink_def)
          with mem have "ResultSend (result j) v \<in> set (filter (on_sink (fst x)) (sends bw))" by simp
          with quiet[OF rs_q[OF x]] show False by simp
        qed
        with rs_wf x show "wf_job ?n (fst x) \<and> result (fst x) \<noteq> result j" by blast
      qed
      from filter_other[OF wj this] resolved wj q'_q show ?thesis
        by (auto simp: tracked_def sink_sends_def n ss)
    qed
  qed
  from coordinator_inv' tr' show ?thesis by blast
qed

lemma split_facts:
  assumes "distinct (map result q)"
  shows "set (take n q) \<union> set (drop n q) = set q"
    and "set (take n q) \<inter> set (drop n q) = {}"
    and "distinct (map result (take n q))"
    and "distinct (map result (drop n q))"
    and "result ` set (take n q) \<inter> result ` set (drop n q) = {}"
proof -
  have "distinct (map result (take n q @ drop n q))" using assms by simp
  then have d: "distinct (map result (take n q))" "distinct (map result (drop n q))"
    "set (map result (take n q)) \<inter> set (map result (drop n q)) = {}"
    by (simp_all only: map_append distinct_append)
  from d show "distinct (map result (take n q))" "distinct (map result (drop n q))" by simp_all
  from d(3) show i: "result ` set (take n q) \<inter> result ` set (drop n q) = {}" by simp
  then show "set (take n q) \<inter> set (drop n q) = {}" by blast
  show "set (take n q) \<union> set (drop n q) = set q"
    by (metis append_take_drop_id set_append)
qed

lemma delivered_eq:
  "delivered b st rs =
     concat (map res_sends (map (\<lambda>(j, s, r). (j, Some r, None))
       (filter (\<lambda>(j, s, r). s = 0) (zip b (zip st rs)))))"
proof -
  have "concat (map (\<lambda>(j, s, r). if s = 0 then [ResultSend (result j) (Some r), ErrSend (err j) None] else []) xs) =
        concat (map res_sends (map (\<lambda>(j, s, r). (j, Some r, None)) (filter (\<lambda>(j, s, r). s = 0) xs)))"
    for xs :: "(bulkWriterJob \<times> int \<times> pb_WriteResult) list"
    by (induction xs) (auto simp: res_sends_def)
  then show ?thesis by (simp add: delivered_def)
qed

lemma fail_sends_eq:
  "concat (map (\<lambda>j. [ResultSend (result j) None, ErrSend (err j) (Some e)]) b) =
     concat (map res_sends (map (\<lambda>j. (j, None, Some e)) b))"
  by (induction b) (simp_all add: res_sends_def)

lemma set_alg:
  assumes "A \<union> B = T" "A \<inter> B = {}" "T \<union> D = Q" "T \<inter> D = {}"
  shows "(D \<union> B) \<union> A = Q" and "(D \<union> B) \<inter> A = {}"
  using assms by blast+

lemma ok_step:
  assumes I: "coordinator_inv bw"
    and b: "b = take n (backlogQueue bw)"
    and len: "length st = length b" "length rs = length b"
    and n': "nchan bw' = nchan bw" and r': "reqs bw' = 0"
    and q': "backlogQueue bw' = drop n (backlogQueue bw) @ requeued b st rs"
    and s': "sends bw' = sends bw @ delivered b st rs"
  shows "coordinator_inv bw' \<and> (tracked j bw \<longrightarrow> tracked j bw')"
proof -
  let ?xs = "zip b (zip st rs)"
  let ?ok = "filter (\<lambda>(j, s, r). s = 0) ?xs"
  let ?no = "filter (\<lambda>(j, s, r). s \<noteq> 0) ?xs"
  let ?res = "map (\<lambda>(j, s, r). (j, Some r, None :: error option)) ?ok"
  have dist: "distinct (map result (backlogQueue bw))" using I by (simp add: coordinator_inv_def)
  note sf = split_facts[OF dist, of n, folded b]
  have fx: "map fst ?xs = b" using len by simp
  have db: "distinct b" using sf(3) by (simp add: distinct_map)
  have dxs: "distinct (map fst ?xs)" using db fx by simp
  have fres: "map fst ?res = map fst ?ok" by (simp add: comp_def case_prod_beta)
  have rq: "requeued b st rs = map fst ?no" by (simp add: requeued_def)
  have part: "fst ` set ?ok \<union> fst ` set ?no = set b"
  proof -
    have "set ?ok \<union> set ?no = set ?xs" by auto
    then have "fst ` set ?ok \<union> fst ` set ?no = fst ` set ?xs" by (metis image_Un)
    also have "\<dots> = set (map fst ?xs)" by simp
    finally show ?thesis by (simp only: fx)
  qed
  have pdisj: "fst ` set ?ok \<inter> fst ` set ?no = {}"
  proof -
    have "inj_on fst (set ?xs)" using dxs by (simp add: distinct_map)
    moreover have "set ?ok \<inter> set ?no = {}" by auto
    moreover have "set ?ok \<subseteq> set ?xs" "set ?no \<subseteq> set ?xs" by auto
    ultimately show ?thesis by (auto dest: inj_onD)
  qed
  have sres: "fst ` set ?res = fst ` set ?ok"
    by (metis fres list.set_map)
  have sq': "set (backlogQueue bw') = (set (drop n (backlogQueue bw)) \<union> fst ` set ?no)"
    by (simp only: q' rq set_append list.set_map)
  have sub: "set (backlogQueue bw') \<union> fst ` set ?res = set (backlogQueue bw)"
    unfolding sq' sres by (rule set_alg(1)[OF part pdisj sf(1) sf(2)])
  have disj: "set (backlogQueue bw') \<inter> fst ` set ?res = {}"
    unfolding sq' sres by (rule set_alg(2)[OF part pdisj sf(1) sf(2)])
  have "map (result \<circ> fst) ?xs = map result b"
    by (simp only: map_map[symmetric] fx)
  then have "distinct (map (result \<circ> fst) ?xs)" using sf(3) by (simp only:)
  then have "distinct (map (result \<circ> fst) ?no)" by (rule distinct_map_filter)
  then have dno: "distinct (map result (map fst ?no))" by (simp only: map_map)
  have "fst ` set ?no \<subseteq> set b" using part by blast
  then have "result ` (fst ` set ?no) \<inter> result ` set (drop n (backlogQueue bw)) = {}"
    using sf(5) by blast
  then have "set (map result (drop n (backlogQueue bw))) \<inter> set (map result (map fst ?no)) = {}"
    by (simp only: list.set_map) blast
  with dno sf(4) have dq: "distinct (map result (backlogQueue bw'))"
    by (simp only: q' rq map_append distinct_append)
  have "distinct (map fst ?ok)" using dxs by (rule distinct_map_filter)
  then have dr: "distinct (map fst ?res)" by (simp only: fres)
  have one: "\<forall>x\<in>set ?res. (fst (snd x) = None) \<noteq> (snd (snd x) = None)"
    by (simp add: case_prod_beta)
  have s: "sends bw' = sends bw @ concat (map res_sends ?res)"
    by (simp only: s' delivered_eq)
  from resolve_step[OF I n' r' s sub disj dq dr one] show ?thesis .
qed

lemma err_step:
  assumes I: "coordinator_inv bw"
    and b: "b = take n (backlogQueue bw)"
    and n': "nchan bw' = nchan bw" and r': "reqs bw' = 0"
    and q': "backlogQueue bw' = drop n (backlogQueue bw)"
    and s': "sends bw' = sends bw @
               concat (map (\<lambda>j. [ResultSend (result j) None, ErrSend (err j) (Some e)]) b)"
  shows "coordinator_inv bw' \<and> (tracked j bw \<longrightarrow> tracked j bw')"
proof -
  let ?res = "map (\<lambda>j. (j, None :: pb_WriteResult option, Some e)) b"
  have dist: "distinct (map result (backlogQueue bw))" using I by (simp add: coordinator_inv_def)
  note sf = split_facts[OF dist, of n, folded b]
  have fres: "map fst ?res = b" by (simp add: comp_def)
  have sres: "fst ` set ?res = set b" by (metis fres list.set_map)
  have sub: "set (backlogQueue bw') \<union> fst ` set ?res = set (backlogQueue bw)"
    using sf(1) by (simp only: q' sres) blast
  have disj: "set (backlogQueue bw') \<inter> fst ` set ?res = {}"
    using sf(2) by (simp only: q' sres) blast
  have dq: "distinct (map result (backlogQueue bw'))" using sf(4) by (simp only: q')
  have dr: "distinct (map fst ?res)" using sf(3) by (simp only: fres) (simp add: distinct_map)
  have one: "\<forall>x\<in>set ?res. (fst (snd x) = None) \<noteq> (snd (snd x) = None)" by auto
  have s: "sends bw' = sends bw @ concat (map res_sends ?res)"
    by (simp only: s' fail_sends_eq)
  from resolve_step[OF I n' r' s sub disj dq dr one] show ?thesis .
qed

lemma execute_error_eq:
  assumes "reqs bw < DEFAULT_STARTING_MAXIMUM_OPS_PER_SECOND"
    and "makeBatch bw = (b, bwa)"
    and "ws = map write (filter (\<lambda>j. attempts j < MAX_RETRY_ATTEMPTS) b)"
    and "ws \<noteq> []"
    and "tr (length (calls bw)) \<lparr>Database = database bw, Writes = ws\<rparr> = (None, Some e)"
  shows "execute tr f bw =
     Panicked (bw\<lparr>backlogQueue := backlogQueue bwa,
                  calls := calls bw @ [\<lparr>Database = database bw, Writes = ws\<rparr>],
                  sends := sends bw @
                    concat (map (\<lambda>j. [ResultSend (result j) None, ErrSend (err j) (Some e)]) b)\<rparr>)"
proof -
  from assms(2) have b: "b = take MAX_BATCH_SIZE (backlogQueue bw)"
    and bwa: "bwa = bw\<lparr>backlogQueue := drop MAX_BATCH_SIZE (backlogQueue bw)\<rparr>"
    by (simp_all add: makeBatch_eq)
  show ?thesis
    using assms(1,3,4,5)
    by (simp add: execute_def makeBatch_eq b bwa fail_all_eq)
qed

lemma execute_empty:
  assumes "reqs bw < DEFAULT_STARTING_MAXIMUM_OPS_PER_SECOND" "backlogQueue bw = []"
  shows "execute tr f bw = Returned bw"
  using assms by (simp add: execute_def makeBatch_eq)

lemma inv_attempts:
  "coordinator_inv bw \<Longrightarrow> \<forall>j\<in>set (backlogQueue bw). attempts j < MAX_RETRY_ATTEMPTS"
  by (simp add: coordinator_inv_def wf_job_def MAX_RETRY_ATTEMPTS_def)

lemma inv_reqs: "coordinator_inv bw \<Longrightarrow> reqs bw < DEFAULT_STARTING_MAXIMUM_OPS_PER_SECOND"
  by (simp add: coordinator_inv_def DEFAULT_STARTING_MAXIMUM_OPS_PER_SECOND_def)

lemma contract_cases:
  assumes "transport_contract tr"
  obtains (ok) resp where "tr n r = (Some resp, None)"
      "length (WriteResults resp) = length (Writes r)" "length (Status resp) = length (Writes r)"
    | (error) e where "tr n r = (None, Some e)"
proof -
  from assms have "case tr n r of
        (Some resp, None) \<Rightarrow>
          length (WriteResults resp) = length (Writes r) \<and> length (Status resp) = length (Writes r)
      | (None, Some e) \<Rightarrow> True
      | _ \<Rightarrow> False"
    unfolding transport_contract_def by (elim allE)
  then show thesis
    using ok error by (auto split: prod.splits option.splits)
qed

lemma execute_inv:
  assumes C: "transport_contract tr" and I: "coordinator_inv bw"
  shows "coordinator_inv (state_of (execute tr f bw)) \<and>
         (tracked j bw \<longrightarrow> tracked j (state_of (execute tr f bw)))"
proof (cases "backlogQueue bw = []")
  case True
  with execute_empty[OF inv_reqs[OF I] True] I show ?thesis by simp
next
  case False
  define b where "b = take MAX_BATCH_SIZE (backlogQueue bw)"
  define req where "req = \<lparr>Database = database bw, Writes = map write b\<rparr>"
  have fb: "filter (\<lambda>j. attempts j < MAX_RETRY_ATTEMPTS) b = b"
    using inv_attempts[OF I] by (auto simp: b_def filter_id_conv dest: in_set_takeD)
  have ne: "b \<noteq> []" using False by (simp add: b_def MAX_BATCH_SIZE_def)
  have r0: "reqs bw = 0" using I by (simp add: coordinator_inv_def)
  show ?thesis
  proof (rule contract_cases[OF C, of "length (calls bw)" req])
    fix resp
    assume ok: "tr (length (calls bw)) req = (Some resp, None)"
      "length (WriteResults resp) = length (Writes req)"
      "length (Status resp) = length (Writes req)"
    then have len: "length (Status resp) = length b" "length (WriteResults resp) = length b"
      by (simp_all add: req_def)
    have ex: "execute tr f bw =
       Returned (bw\<lparr>backlogQueue := drop MAX_BATCH_SIZE (backlogQueue bw) @
                     requeued b (Status resp) (WriteResults resp),
                  calls := calls bw @ [req],
                  sends := sends bw @ delivered b (Status resp) (WriteResults resp)\<rparr>)"
      using len
      by (intro execute_ok[where tr = tr, OF inv_reqs[OF I] inv_attempts[OF I] False b_def req_def ok(1)])
        simp_all
    show ?thesis
      unfolding ex state_of.simps
      by (rule ok_step[OF I b_def len]) (simp_all add: r0)
  next
    fix e
    assume error: "tr (length (calls bw)) req = (None, Some e)"
    have ex: "execute tr f bw =
       Panicked (bw\<lparr>backlogQueue := drop MAX_BATCH_SIZE (backlogQueue bw),
                  calls := calls bw @ [req],
                  sends := sends bw @
                    concat (map (\<lambda>j. [ResultSend (result j) None, ErrSend (err j) (Some e)]) b)\<rparr>)"
      using execute_error_eq[OF inv_reqs[OF I], where b = b and ws = "map write b" and tr = tr
          and bwa = "bw\<lparr>backlogQueue := drop MAX_BATCH_SIZE (backlogQueue bw)\<rparr>"
          and e = e and f = f]
        error ne
      by (simp add: makeBatch_eq b_def fb[unfolded b_def] req_def)
    show ?thesis
      unfolding ex state_of.simps
      by (rule err_step[OF I b_def]) (simp_all add: r0)
  qed
qed

lemma inv_new: "coordinator_inv (NewCallersBulkWriter db)"
  by (simp add: coordinator_inv_def NewCallersBulkWriter_def)

lemma Create_enqueued_eq:
  assumes "Create enc doc d bw = CreateEnqueued j bw'"
  shows "result j = nchan bw" "err j = Suc (nchan bw)" "attempts j = 0"
    "bw' = bw\<lparr>nchan := nchan bw + 2, backlogQueue := backlogQueue bw @ [j]\<rparr>"
  using assms
  by (auto simp: Create_def Let_def split: if_splits option.splits sum.splits list.splits)

lemma wf_job_mono: "wf_job n j \<Longrightarrow> n \<le> m \<Longrightarrow> wf_job m j"
  by (simp add: wf_job_def)

lemma Create_inv:
  assumes C: "Create enc doc d bw = CreateEnqueued jn bw'" and I: "coordinator_inv bw"
  shows "coordinator_inv bw' \<and> tracked jn bw' \<and> (tracked j bw \<longrightarrow> tracked j bw')"
proof -
  note e = Create_enqueued_eq[OF C]
  have ev: "even (nchan bw)" and r0: "reqs bw = 0"
    and dist: "distinct (map result (backlogQueue bw))"
    and wf: "\<And>k. k \<in> set (backlogQueue bw) \<Longrightarrow> wf_job (nchan bw) k"
    and quiet: "\<And>k. k \<in> set (backlogQueue bw) \<Longrightarrow> filter (on_sink k) (sends bw) = []"
    and lt: "\<And>x. x \<in> set (sends bw) \<Longrightarrow> send_chan x < nchan bw"
    using I by (auto simp: coordinator_inv_def sink_sends_def)
  have s': "sends bw' = sends bw" and n': "nchan bw' = nchan bw + 2"
    and q': "backlogQueue bw' = backlogQueue bw @ [jn]" and r': "reqs bw' = reqs bw"
    by (simp_all add: e(4))
  have wn: "wf_job (nchan bw') jn" using e(1,2,3) ev by (simp add: wf_job_def n')
  have qn: "filter (on_sink jn) (sends bw') = []"
  proof -
    have "\<not> on_sink jn x" if "x \<in> set (sends bw)" for x
      using lt[OF that] e(1,2) by (auto simp: on_sink_def)
    then show ?thesis by (simp add: s' filter_empty_conv)
  qed
  have fresh: "result jn \<notin> result ` set (backlogQueue bw)"
  proof
    assume "result jn \<in> result ` set (backlogQueue bw)"
    then obtain k where k: "k \<in> set (backlogQueue bw)" "result k = result jn" by auto
    from wf[OF k(1)] have "result k < nchan bw" by (simp add: wf_job_def)
    with k(2) e(1) show False by simp
  qed
  have d': "distinct (map result (backlogQueue bw'))" using dist fresh by (simp add: q')
  have queued: "\<forall>k\<in>set (backlogQueue bw'). wf_job (nchan bw') k \<and> sink_sends k bw' = []"
  proof
    fix k assume "k \<in> set (backlogQueue bw')"
    then consider "k \<in> set (backlogQueue bw)" | "k = jn" by (auto simp: q')
    then show "wf_job (nchan bw') k \<and> sink_sends k bw' = []"
    proof cases
      case 1
      from wf_job_mono[OF wf[OF 1], of "nchan bw'"] quiet[OF 1] show ?thesis
        by (simp add: n' s' sink_sends_def)
    next
      case 2
      with wn qn show ?thesis by (simp add: sink_sends_def)
    qed
  qed
  have all_lt: "\<forall>x\<in>set (sends bw'). send_chan x < nchan bw'"
  proof
    fix x assume "x \<in> set (sends bw')"
    then have "send_chan x < nchan bw" using lt by (simp add: s')
    then show "send_chan x < nchan bw'" by (simp add: n')
  qed
  have coordinator_inv': "coordinator_inv bw'"
    unfolding coordinator_inv_def using ev r0 d' queued all_lt by (simp add: n' r')
  have tn: "tracked jn bw'"
    using wn qn by (simp add: tracked_def sink_sends_def q')
  have tj: "tracked j bw'" if t: "tracked j bw"
  proof -
    have wj: "wf_job (nchan bw') j" using t wf_job_mono[of "nchan bw" j "nchan bw'"]
      by (simp add: tracked_def n')
    have "j \<noteq> jn" if "j \<notin> set (backlogQueue bw)"
    proof
      assume "j = jn"
      moreover have "result j < nchan bw" using t by (simp add: tracked_def wf_job_def)
      ultimately show False using e(1) by simp
    qed
    with t wj show ?thesis
      by (auto simp: tracked_def sink_sends_def q' s')
  qed
  from coordinator_inv' tn tj show ?thesis by blast
qed

lemma Flush_loop_inv:
  assumes "Flush_loop tr bw = Some out" "transport_contract tr"
  shows "coordinator_inv bw \<longrightarrow> coordinator_inv (state_of out) \<and> (tracked j bw \<longrightarrow> tracked j (state_of out))"
  using assms
proof (induction rule: Flush_loop_induct)
  case (empty tr bw)
  show ?case by simp
next
  case (panic tr bw w)
  with execute_inv[OF panic(3), of bw True j] show ?case by auto
next
  case (step tr bw bw' out)
  with execute_inv[OF step(5), of bw True j] show ?case by auto
qed

lemma Flush_inv:
  assumes F: "Flush tr bw = Some out" and C: "transport_contract tr" and I: "coordinator_inv bw"
  shows "coordinator_inv (state_of out) \<and> (tracked j bw \<longrightarrow> tracked j (state_of out))"
proof (cases "execute tr True bw")
  case (Returned w)
  then have "Flush_loop tr w = Some out" using F by (simp add: Flush_def)
  from Flush_loop_inv[OF this C, of j] execute_inv[OF C I, of True j] Returned
  show ?thesis by simp
next
  case (Panicked w)
  then have "out = Panicked w" using F by (simp add: Flush_def)
  with execute_inv[OF C I, of True j] Panicked show ?thesis by simp
qed

lemma inv_isOpen: "coordinator_inv (bw\<lparr>isOpen := x\<rparr>) = coordinator_inv bw"
  by (simp add: coordinator_inv_def sink_sends_def)

lemma tracked_isOpen: "tracked j (bw\<lparr>isOpen := x\<rparr>) = tracked j bw"
  by (simp add: tracked_def sink_sends_def)

lemma apply_op_inv:
  assumes A: "apply_op tr enc x bw = Some out" and C: "transport_contract tr" and I: "coordinator_inv bw"
  shows "coordinator_inv (state_of out) \<and> (tracked j bw \<longrightarrow> tracked j (state_of out))"
proof (cases x)
  case (OpCreate doc d)
  show ?thesis
  proof (cases "Create enc doc d bw")
    case (CreateReturned r e w)
    with A OpCreate Create_frame(1)[OF CreateReturned] I show ?thesis by auto
  next
    case (CreatePanicked w)
    with A OpCreate Create_frame(2)[OF CreatePanicked] I show ?thesis by auto
  next
    case (CreateEnqueued jn w)
    with A OpCreate Create_inv[OF CreateEnqueued I, of j] show ?thesis by auto
  qed
next
  case (OpExecute f)
  with A execute_inv[OF C I, of f j] show ?thesis by auto
next
  case OpFlush
  with A Flush_inv[OF _ C I, of out j] show ?thesis by simp
next
  case OpClose
  with A have "Flush tr (bw\<lparr>isOpen := False\<rparr>) = Some out" by (simp add: Close_def)
  from Flush_inv[OF this C, of j] I show ?thesis by (simp add: inv_isOpen tracked_isOpen)
qed

lemma run_inv:
  assumes "run tr enc xs bw = Some out" and C: "transport_contract tr" and "coordinator_inv bw"
  shows "coordinator_inv (state_of out) \<and> (tracked j bw \<longrightarrow> tracked j (state_of out))"
  using assms(1,3)
proof (induction xs arbitrary: bw)
  case Nil
  then show ?case by auto
next
  case (Cons x xs)
  show ?case
  proof (cases "apply_op tr enc x bw")
    case None
    with Cons.prems show ?thesis by simp
  next
    case (Some o1)
    note step = apply_op_inv[OF Some C Cons.prems(2), of j]
    show ?thesis
    proof (cases o1)
      case (Returned w)
      with Some Cons.prems have "run tr enc xs w = Some out" by simp
      from Cons.IH[OF this] step Returned show ?thesis by simp
    next
      case (Panicked w)
      with Some Cons.prems have "out = Panicked w" by simp
      with step Panicked show ?thesis by simp
    qed
  qed
qed

text \<open>
  What does hold of the sinks, with every call taken as one step and a transport that
  keeps its contract: along every run from a new coordinator, a job that \<open>Create\<close> has
  enqueued is either still in the backlog, with nothing sent on its two channels, or it
  is out of the backlog and one value was sent on its result channel and one on its
  error channel, exactly one of the two not nil. No sink is resolved twice, and no
  job leaves the backlog unresolved.
\<close>

theorem accepted_write_resolved_once:
  assumes "transport_contract tr"
    and "run tr enc xs (NewCallersBulkWriter db) = Some (Returned bw)"
    and "Create enc doc d bw = CreateEnqueued j bw1"
    and "run tr enc ys bw1 = Some out"
  shows "(j \<in> set (backlogQueue (state_of out)) \<and> sink_sends j (state_of out) = []) \<or>
         (j \<notin> set (backlogQueue (state_of out)) \<and> is_resolution j (sink_sends j (state_of out)))"
proof -
  have "coordinator_inv bw" using run_inv[OF assms(2,1) inv_new] by simp
  from Create_inv[OF assms(3) this] have "coordinator_inv bw1" "tracked j bw1" by simp_all
  with run_inv[OF assms(4,1), of j] have "tracked j (state_of out)" by simp
  then show ?thesis by (simp add: tracked_def)
qed

lemma zip3_nth:
  assumes "i < length b" "length st = length b" "length rs = length b"
  shows "(b ! i, st ! i, rs ! i) \<in> set (zip b (zip st rs))"
  using assms by (auto simp: set_zip intro!: exI[of _ i])

lemma requeued_mem:
  assumes "i < length b" "length st = length b" "length rs = length b" "st ! i \<noteq> 0"
  shows "b ! i \<in> set (requeued b st rs)"
proof -
  have "(b ! i, st ! i, rs ! i) \<in> set (filter (\<lambda>(j, s, r). s \<noteq> 0) (zip b (zip st rs)))"
    using zip3_nth[OF assms(1,2,3)] assms(4) by simp
  then have "fst (b ! i, st ! i, rs ! i) \<in> fst ` set (filter (\<lambda>(j, s, r). s \<noteq> 0) (zip b (zip st rs)))"
    by (rule imageI)
  then show ?thesis by (simp add: requeued_def)
qed

lemma requeued_not_mem:
  assumes "i < length b" "length st = length b" "length rs = length b" "st ! i = 0" "distinct b"
  shows "b ! i \<notin> set (requeued b st rs)"
proof
  assume "b ! i \<in> set (requeued b st rs)"
  then obtain s r where m: "(b ! i, s, r) \<in> set (zip b (zip st rs))" "s \<noteq> 0"
    by (auto simp: requeued_def)
  have "distinct (map fst (zip b (zip st rs)))" using assms(2,3,5) by simp
  then have "inj_on fst (set (zip b (zip st rs)))" by (simp add: distinct_map)
  from inj_onD[OF this _ m(1) zip3_nth[OF assms(1,2,3)]] have "s = st ! i" by simp
  with m(2) assms(4) show False by simp
qed

lemma delivered_mem:
  assumes "i < length b" "length st = length b" "length rs = length b" "st ! i = 0"
  shows "ResultSend (result (b ! i)) (Some (rs ! i)) \<in> set (delivered b st rs)"
proof -
  have "\<exists>x\<in>set (zip b (zip st rs)). ResultSend (result (b ! i)) (Some (rs ! i)) \<in>
      set (case x of (j, s, r) \<Rightarrow> if s = 0 then [ResultSend (result j) (Some r), ErrSend (err j) None] else [])"
    using zip3_nth[OF assms(1,2,3)] assms(4) by (intro bexI[of _ "(b ! i, st ! i, rs ! i)"]) simp_all
  then show ?thesis by (simp add: delivered_def)
qed

lemma run_reaches_inv:
  "transport_contract tr \<Longrightarrow> run tr enc xs (NewCallersBulkWriter db) = Some (Returned bw) \<Longrightarrow> coordinator_inv bw"
  using run_inv[OF _ _ inv_new, of tr enc xs db "Returned bw"] by simp

text \<open>
  C3. Let the transport keep its contract, and let \<open>execute\<close> dispatch a batch \<open>b\<close> in a
  state that a run from a new coordinator has reached, the transport call succeeding
  with \<open>resp\<close>. Then the request holds the writes of the jobs of \<open>b\<close> in order, and the
  pair at index \<open>i\<close> of the response goes to the job \<open>b ! i\<close>: when the status is 0, what
  has been sent on the channels of that job is exactly result \<open>i\<close> and a nil error, and
  the job is out of the backlog; otherwise nothing was sent to it and it is back in
  the backlog.
\<close>

theorem response_routed_by_position:
  assumes C: "transport_contract tr"
    and R: "run tr enc xs (NewCallersBulkWriter db) = Some (Returned bw)"
    and M: "makeBatch bw = (b, bw1)"
    and Q: "req = \<lparr>Database = database bw1,
                   Writes = map write (filter (\<lambda>j. attempts j < MAX_RETRY_ATTEMPTS) b)\<rparr>"
    and W: "Writes req \<noteq> []"
    and T: "tr (length (calls bw)) req = (Some resp, None)"
  shows "\<exists>bw'. execute tr f bw = Returned bw' \<and> calls bw' = calls bw @ [req] \<and>
           length (Writes req) = length b \<and>
           (\<forall>i<length b.
              Writes req ! i = write (b ! i) \<and>
              (if Status resp ! i = 0
               then sink_sends (b ! i) bw' =
                      [ResultSend (result (b ! i)) (Some (WriteResults resp ! i)),
                       ErrSend (err (b ! i)) None] \<and>
                    b ! i \<notin> set (backlogQueue bw')
               else sink_sends (b ! i) bw' = [] \<and> b ! i \<in> set (backlogQueue bw')))"
proof -
  have I: "coordinator_inv bw" using run_reaches_inv[OF C R] .
  from M have b: "b = take MAX_BATCH_SIZE (backlogQueue bw)"
    and bw1: "bw1 = bw\<lparr>backlogQueue := drop MAX_BATCH_SIZE (backlogQueue bw)\<rparr>"
    by (simp_all add: makeBatch_eq)
  have fb: "filter (\<lambda>j. attempts j < MAX_RETRY_ATTEMPTS) b = b"
    using inv_attempts[OF I] by (auto simp: b filter_id_conv dest: in_set_takeD)
  have req: "req = \<lparr>Database = database bw, Writes = map write b\<rparr>"
    using Q by (simp add: fb bw1)
  have ne: "backlogQueue bw \<noteq> []" using W by (auto simp: req b)
  have len: "length (Status resp) = length b" "length (WriteResults resp) = length b"
  proof -
    show "length (Status resp) = length b" "length (WriteResults resp) = length b"
      by (rule contract_cases[OF C, of "length (calls bw)" req]; use T in \<open>simp add: req\<close>)+
  qed
  define bw' where "bw' = bw\<lparr>backlogQueue := drop MAX_BATCH_SIZE (backlogQueue bw) @
                     requeued b (Status resp) (WriteResults resp),
                  calls := calls bw @ [req],
                  sends := sends bw @ delivered b (Status resp) (WriteResults resp)\<rparr>"
  have ex: "execute tr f bw = Returned bw'"
    unfolding bw'_def using len
    by (intro execute_ok[where tr = tr, OF inv_reqs[OF I] inv_attempts[OF I] ne b req T]) simp_all
  have r0: "reqs bw = 0" using I by (simp add: coordinator_inv_def)
  have step: "coordinator_inv bw' \<and> (tracked j bw \<longrightarrow> tracked j bw')" for j
    by (rule ok_step[OF I b len]) (simp_all add: bw'_def r0)
  have dist: "distinct (map result (backlogQueue bw))" using I by (simp add: coordinator_inv_def)
  note sf = split_facts[OF dist, of MAX_BATCH_SIZE, folded b]
  have db: "distinct b" using sf(3) by (simp add: distinct_map)
  have per: "if Status resp ! i = 0
       then sink_sends (b ! i) bw' =
              [ResultSend (result (b ! i)) (Some (WriteResults resp ! i)), ErrSend (err (b ! i)) None] \<and>
            b ! i \<notin> set (backlogQueue bw')
       else sink_sends (b ! i) bw' = [] \<and> b ! i \<in> set (backlogQueue bw')" if i: "i < length b" for i
  proof -
    let ?k = "b ! i"
    have kb: "?k \<in> set b" using i by simp
    then have kq: "?k \<in> set (backlogQueue bw)" using sf(1) by blast
    have "tracked ?k bw" using I kq by (simp add: coordinator_inv_def tracked_def)
    with step have t: "tracked ?k bw'" by blast
    have kd: "?k \<notin> set (drop MAX_BATCH_SIZE (backlogQueue bw))" using kb sf(2) by blast
    show ?thesis
    proof (cases "Status resp ! i = 0")
      case True
      have nq: "?k \<notin> set (backlogQueue bw')"
        using kd requeued_not_mem[OF i len True db] by (simp add: bw'_def)
      with t obtain v e where
        s: "sink_sends ?k bw' = [ResultSend (result ?k) v, ErrSend (err ?k) e]"
        and x: "(v = None) \<noteq> (e = None)"
        by (auto simp: tracked_def is_resolution_iff)
      have "ResultSend (result ?k) (Some (WriteResults resp ! i)) \<in> set (sends bw')"
        using delivered_mem[OF i len True] by (simp add: bw'_def)
      then have "ResultSend (result ?k) (Some (WriteResults resp ! i)) \<in> set (sink_sends ?k bw')"
        by (simp add: sink_sends_def on_sink_def)
      with s have "v = Some (WriteResults resp ! i)" by simp
      with x s nq True show ?thesis by simp
    next
      case False
      have "?k \<in> set (backlogQueue bw')"
        using requeued_mem[OF i len False] by (simp add: bw'_def)
      with t False show ?thesis by (simp add: tracked_def)
    qed
  qed
  have "length (Writes req) = length b" by (simp add: req)
  moreover have "calls bw' = calls bw @ [req]" by (simp add: bw'_def)
  moreover have "\<forall>i<length b. Writes req ! i = write (b ! i)" by (simp add: req)
  ultimately show ?thesis using ex per by blast
qed

lemma chunks_Nil [simp]: "chunks n [] = []"
  by (simp add: chunks.simps)

lemma chunks_step: "0 < n \<Longrightarrow> xs \<noteq> [] \<Longrightarrow> chunks n xs = take n xs # chunks n (drop n xs)"
  by (subst chunks.simps) simp



lemma concat_chunks: "0 < n \<Longrightarrow> concat (chunks n xs) = xs"
proof (induction n xs rule: chunks.induct)
  case (1 n xs)
  show ?case
  proof (cases "xs = []")
    case True
    then show ?thesis by simp
  next
    case False
    with 1 show ?thesis by (simp add: chunks_step)
  qed
qed

lemma Flush_eq_loop: "Flush tr bw = Flush_loop tr bw"
proof (cases "backlogQueue bw = []")
  case True
  have "execute tr True bw = Returned bw"
    using True by (simp add: execute_def makeBatch_eq)
  then show ?thesis using True by (simp add: Flush_def Flush_loop_empty)
next
  case False
  then show ?thesis by (subst Flush_loop.simps) (simp add: Flush_def)
qed



subsection \<open>Concrete transports keep the contract\<close>

lemma contract_respond_ok: "transport_contract respond_ok"
  by (simp add: transport_contract_def respond_ok_def)

lemma contract_respond_mixed: "transport_contract respond_mixed"
  by (simp add: transport_contract_def respond_mixed_def)


theorem accepted_write_resolved_once_witness:
  "transport_contract respond_ok \<and>
   run respond_ok one_write [] (NewCallersBulkWriter ''db'') = Some (Returned (NewCallersBulkWriter ''db'')) \<and>
   Create one_write (Some 3) 7 (NewCallersBulkWriter ''db'') = CreateEnqueued job_0 pending_1 \<and>
   run respond_ok one_write [OpFlush] pending_1 = Some (Returned done_1) \<and>
   job_0 \<notin> set (backlogQueue done_1) \<and>
   is_resolution job_0 (sink_sends job_0 done_1)"
proof -
  have r0: "run respond_ok one_write [] (NewCallersBulkWriter ''db'') =
      Some (Returned (NewCallersBulkWriter ''db''))" by simp
  have f: "Flush respond_ok pending_1 = Some (Returned done_1)"
    by (simp add: pending_1_def done_1_def job_0_def eval_defs)
  then have r1: "run respond_ok one_write [OpFlush] pending_1 = Some (Returned done_1)" by simp
  have q: "job_0 \<in> set (backlogQueue done_1) \<longleftrightarrow> False"
    by (simp add: done_1_def NewCallersBulkWriter_def)
  from accepted_write_resolved_once [OF contract_respond_ok r0 Create_new r1] q
  have "job_0 \<notin> set (backlogQueue done_1) \<and> is_resolution job_0 (sink_sends job_0 done_1)"
    by simp
  with contract_respond_ok r0 Create_new r1 show ?thesis by simp
qed

theorem response_routed_by_position_witness:
  "transport_contract respond_mixed \<and>
   run respond_mixed one_write [OpCreate (Some 3) 7, OpCreate (Some 4) 8]
     (NewCallersBulkWriter ''db'') = Some (Returned pending_2) \<and>
   makeBatch pending_2 = ([job_0, job_1], pending_2\<lparr>backlogQueue := []\<rparr>) \<and>
   respond_mixed 0 \<lparr>Database = ''db'', Writes = [7, 8]\<rparr> =
     (Some \<lparr>WriteResults = [107, 108], Status = [3, 0]\<rparr>, None) \<and>
   execute respond_mixed False pending_2 = Returned routed_2 \<and>
   sink_sends job_0 routed_2 = [] \<and> job_0 \<in> set (backlogQueue routed_2) \<and>
   sink_sends job_1 routed_2 = [ResultSend 2 (Some 108), ErrSend 3 None] \<and>
   job_1 \<notin> set (backlogQueue routed_2)"
proof -
  let ?req = "\<lparr>Database = ''db'', Writes = [7, 8]\<rparr>"
  let ?resp = "\<lparr>WriteResults = [107, 108], Status = [3, 0]\<rparr>"
  have R: "run respond_mixed one_write [OpCreate (Some 3) 7, OpCreate (Some 4) 8]
     (NewCallersBulkWriter ''db'') = Some (Returned pending_2)"
    by (simp add: pending_2_def job_0_def job_1_def eval_defs Let_def)
  have M: "makeBatch pending_2 = ([job_0, job_1], pending_2\<lparr>backlogQueue := []\<rparr>)"
    by (simp add: pending_2_def eval_defs)
  have Q: "?req = \<lparr>Database = database (pending_2\<lparr>backlogQueue := []\<rparr>),
      Writes = map write (filter (\<lambda>j. attempts j < MAX_RETRY_ATTEMPTS) [job_0, job_1])\<rparr>"
    by (simp add: pending_2_def job_0_def job_1_def eval_defs)
  have W: "Writes ?req \<noteq> []" by simp
  have T0: "respond_mixed 0 ?req = (Some ?resp, None)" by (simp add: respond_mixed_def)
  then have T: "respond_mixed (length (calls pending_2)) ?req = (Some ?resp, None)"
    by (simp add: pending_2_def NewCallersBulkWriter_def)
  have E: "execute respond_mixed False pending_2 = Returned routed_2"
    by (simp add: pending_2_def routed_2_def job_0_def job_1_def respond_mixed_def eval_defs)
  from response_routed_by_position
    [where tr = respond_mixed and f = False, OF contract_respond_mixed R M Q W T]
  obtain bw' where x: "execute respond_mixed False pending_2 = Returned bw'"
    and p: "\<forall>i<length [job_0, job_1].
              Writes ?req ! i = write ([job_0, job_1] ! i) \<and>
              (if Status ?resp ! i = 0
               then sink_sends ([job_0, job_1] ! i) bw' =
                      [ResultSend (result ([job_0, job_1] ! i)) (Some (WriteResults ?resp ! i)),
                       ErrSend (err ([job_0, job_1] ! i)) None] \<and>
                    [job_0, job_1] ! i \<notin> set (backlogQueue bw')
               else sink_sends ([job_0, job_1] ! i) bw' = [] \<and>
                    [job_0, job_1] ! i \<in> set (backlogQueue bw'))"
    by blast
  from x E have bw': "bw' = routed_2" by simp
  from p[rule_format, of 0] have 0: "sink_sends job_0 routed_2 = [] \<and> job_0 \<in> set (backlogQueue routed_2)"
    by (simp add: bw')
  from p[rule_format, of 1] have 1: "sink_sends job_1 routed_2 = [ResultSend 2 (Some 108), ErrSend 3 None] \<and>
      job_1 \<notin> set (backlogQueue routed_2)"
    by (simp add: bw' job_1_def)
  from contract_respond_mixed R M T0 E 0 1 show ?thesis by simp
qed

subsection \<open>The number and the sizes of the batches\<close>






subsection \<open>A write that the transport keeps rejecting\<close>

lemma contract_respond_reject: "transport_contract respond_reject"
  by (simp add: transport_contract_def respond_reject_def)

lemma execute_reject_queued:
  "execute respond_reject f (pending_1\<lparr>isOpen := x, calls := cs\<rparr>) =
     Returned (pending_1\<lparr>isOpen := x, calls := cs @ [\<lparr>Database = ''db'', Writes = [7]\<rparr>]\<rparr>)"
  by (simp add: pending_1_def job_0_def eval_defs)

lemma Flush_loop_reject_diverges:
  assumes "Flush_loop tr bw = Some out"
  shows "tr = respond_reject \<longrightarrow> (\<forall>x cs. bw \<noteq> pending_1\<lparr>isOpen := x, calls := cs\<rparr>)"
  using assms
proof (induction rule: Flush_loop_induct)
  case (empty tr bw)
  then show ?case by (auto simp: pending_1_def)
next
  case (panic tr bw w)
  then show ?case by (auto simp: execute_reject_queued)
next
  case (step tr bw bw' out)
  show ?case
  proof (intro impI allI notI)
    fix x cs
    assume t: "tr = respond_reject" and b: "bw = pending_1\<lparr>isOpen := x, calls := cs\<rparr>"
    with step(2) have "bw' = pending_1\<lparr>isOpen := x, calls := cs @ [\<lparr>Database = ''db'', Writes = [7]\<rparr>]\<rparr>"
      by (simp add: execute_reject_queued)
    with step(4) t show False by blast
  qed
qed

lemma pending_1_same: "pending_1\<lparr>isOpen := True, calls := []\<rparr> = pending_1"
  by (simp add: pending_1_def NewCallersBulkWriter_def)

lemma Flush_reject_None: "Flush respond_reject (pending_1\<lparr>isOpen := x, calls := cs\<rparr>) = None"
proof (cases "Flush respond_reject (pending_1\<lparr>isOpen := x, calls := cs\<rparr>)")
  case None
  then show ?thesis .
next
  case (Some out)
  then have "Flush_loop respond_reject (pending_1\<lparr>isOpen := x, calls := cs\<rparr>) = Some out"
    by (simp add: Flush_eq_loop)
  from Flush_loop_reject_diverges[OF this] show ?thesis by blast
qed

text \<open>
  C1, the code at a failing input. One write is enqueued and the transport, keeping its
  contract, answers it with a status other than 0 every time. However many dispatches
  run, the job is still in the backlog and nothing has been sent on its two channels:
  its sink is resolved zero times. \<open>Flush\<close> and \<open>Close\<close> never return.
\<close>

theorem rejected_write_never_resolved:
  "transport_contract respond_reject \<and>
   Create one_write (Some 3) 7 (NewCallersBulkWriter ''db'') = CreateEnqueued job_0 pending_1 \<and>
   (\<forall>n. run respond_reject one_write (replicate n (OpExecute False)) pending_1 =
          Some (Returned (pending_1\<lparr>calls := replicate n \<lparr>Database = ''db'', Writes = [7]\<rparr>\<rparr>)) \<and>
        job_0 \<in> set (backlogQueue (pending_1\<lparr>calls := replicate n \<lparr>Database = ''db'', Writes = [7]\<rparr>\<rparr>)) \<and>
        sink_sends job_0 (pending_1\<lparr>calls := replicate n \<lparr>Database = ''db'', Writes = [7]\<rparr>\<rparr>) = []) \<and>
   Flush respond_reject pending_1 = None \<and>
   Close respond_reject pending_1 = None"
proof -
  have c0: "pending_1\<lparr>calls := []\<rparr> = pending_1" by (simp add: pending_1_def NewCallersBulkWriter_def)
  have r: "run respond_reject one_write (replicate n (OpExecute False)) pending_1 =
          Some (Returned (pending_1\<lparr>calls := replicate n \<lparr>Database = ''db'', Writes = [7]\<rparr>\<rparr>))" for n
    using run_reject_pending[of one_write n False "[]"] by (simp add: c0)
  have q: "job_0 \<in> set (backlogQueue (pending_1\<lparr>calls := cs\<rparr>))"
    "sink_sends job_0 (pending_1\<lparr>calls := cs\<rparr>) = []" for cs
    by (simp_all add: pending_1_def NewCallersBulkWriter_def sink_sends_def)
  have f: "Flush respond_reject pending_1 = None"
    using Flush_reject_None[where x = True and cs = "[]"] by (simp add: pending_1_same)
  have "Close respond_reject pending_1 =
      Flush respond_reject (pending_1\<lparr>isOpen := False, calls := []\<rparr>)"
    by (simp add: Close_def pending_1_def NewCallersBulkWriter_def)
  then have c: "Close respond_reject pending_1 = None"
    by (simp only: Flush_reject_None)
  show ?thesis
    by (intro conjI allI) (rule contract_respond_reject Create_new r q f c)+
qed

lemma execute_reject_then_ok_early:
  "length cs < 10 \<Longrightarrow>
   execute respond_reject_then_ok f (pending_1\<lparr>calls := cs\<rparr>) =
     Returned (pending_1\<lparr>calls := cs @ [\<lparr>Database = ''db'', Writes = [7]\<rparr>]\<rparr>)"
  by (simp add: respond_reject_then_ok_def pending_1_def job_0_def eval_defs)

lemma run_reject_then_ok_early:
  "length cs + n \<le> 10 \<Longrightarrow>
   run respond_reject_then_ok enc (replicate n (OpExecute f)) (pending_1\<lparr>calls := cs\<rparr>) =
     Some (Returned (pending_1\<lparr>calls := cs @ replicate n \<lparr>Database = ''db'', Writes = [7]\<rparr>\<rparr>))"
proof (induction n arbitrary: cs)
  case 0
  show ?case by simp
next
  case (Suc n)
  then show ?case
    by (simp add: execute_reject_then_ok_early replicate_app_Cons_same)
qed

text \<open>
  C4, the code at a failing input. One write is enqueued and rejected in ten requests,
  \<open>MAX_RETRY_ATTEMPTS\<close> non-ok responses. Its \<open>attempts\<close> is still 0, so the next dispatch
  pops it and does not leave it out: its write is in the eleventh request, and what is
  sent on its channels is the result of that request, not an error.
\<close>

theorem rejected_ten_times_sent_again:
  "run respond_reject_then_ok one_write (OpCreate (Some 3) 7 # replicate 10 (OpExecute False))
     (NewCallersBulkWriter ''db'') = Some (Returned rejected_10) \<and>
   map Writes (calls rejected_10) = replicate 10 [write job_0] \<and>
   backlogQueue rejected_10 = [job_0] \<and> attempts job_0 = 0 \<and>
   execute respond_reject_then_ok False rejected_10 = Returned resent_11 \<and>
   Writes (last (calls resent_11)) = [write job_0] \<and>
   sink_sends job_0 resent_11 = [ResultSend 0 (Some 7), ErrSend 1 None]"
proof -
  have c0: "pending_1\<lparr>calls := []\<rparr> = pending_1" by (simp add: pending_1_def NewCallersBulkWriter_def)
  have "run respond_reject_then_ok one_write (replicate 10 (OpExecute False)) pending_1 =
      Some (Returned rejected_10)"
    using run_reject_then_ok_early[of "[]" 10 one_write False] by (simp add: c0 rejected_10_def)
  then have r: "run respond_reject_then_ok one_write (OpCreate (Some 3) 7 # replicate 10 (OpExecute False))
     (NewCallersBulkWriter ''db'') = Some (Returned rejected_10)"
    by (simp add: Create_new)
  have e: "execute respond_reject_then_ok False rejected_10 = Returned resent_11"
    by (simp add: rejected_10_def resent_11_def respond_reject_then_ok_def pending_1_def job_0_def
        eval_defs Let_def)
  have s: "map Writes (calls rejected_10) = replicate 10 [write job_0]"
    "backlogQueue rejected_10 = [job_0]" "attempts job_0 = 0"
    "Writes (last (calls resent_11)) = [write job_0]"
    "sink_sends job_0 resent_11 = [ResultSend 0 (Some 7), ErrSend 1 None]"
    by (simp_all add: rejected_10_def resent_11_def pending_1_def job_0_def NewCallersBulkWriter_def
        sink_sends_def on_sink_def)
  from r e s show ?thesis by simp
qed

end
